theory Spec2Isabelle
  imports Complex_Main "HOL-Library.Sublist"
begin

section \<open>emitlog: the buffering writer (writer.go, config.go)\<close>

text \<open>
  A shallow embedding of \<^verbatim>\<open>BufferingWriter\<close> and its methods. Every method of the
  source takes the mutex for its whole body, so each call is one atomic step on the
  state; the embedding is the sequential semantics of those steps.

  \<^item> \<^verbatim>\<open>[]byte\<close> is a list of 8-bit characters.
  \<^item> Go's 64-bit \<^verbatim>\<open>int\<close> is modelled by \<open>int\<close>. The only arithmetic of the source
    is \<^verbatim>\<open>bw.bufferSize+len(p)\<close>: the counter stays between 0 and \<^verbatim>\<open>BufferSize\<close>
    (lemma \<open>bufferSize_bounds\<close>) and \<^verbatim>\<open>len(p)\<close> is the length of a slice held in
    memory, so the sum stays below \<open>2^63\<close> unless
    \<^verbatim>\<open>BufferSize\<close> is within one slice length of the largest \<^verbatim>\<open>int\<close>.
  \<^item> A \<^verbatim>\<open>float64\<close> is a NaN, an infinity or a finite value, with the comparisons
    of IEEE 754 (every comparison with a NaN is false). The finite values are taken
    from \<open>real\<close>, of which the finite \<^verbatim>\<open>float64\<close> values are a part. No \<^verbatim>\<open>float64\<close>
    arithmetic is modelled: the value of the product \<^verbatim>\<open>rand.Float64()*100\<close>, as the
    machine rounds it, is an explicit argument.
  \<^item> The downstream \<^verbatim>\<open>io.Writer\<close> is an arbitrary function from the calls it has
    received so far and the new payload to the \<^verbatim>\<open>(n, err)\<close> it answers; the list
    of payloads it has received is threaded through every operation.
\<close>

subsection \<open>Data\<close>

type_synonym bytes = string

text \<open>The values of \<^verbatim>\<open>zerolog.Level\<close> that the source names.\<close>

datatype Level =
  TraceLevel | DebugLevel | InfoLevel | WarnLevel | ErrorLevel | FatalLevel | PanicLevel

text \<open>A non-nil Go \<^verbatim>\<open>error\<close>, carrying its message.\<close>

datatype error = Error string

text \<open>
  Go's \<^verbatim>\<open>float64\<close> and its comparisons \<^verbatim>\<open><\<close>, \<^verbatim>\<open><=\<close> and \<^verbatim>\<open>>=\<close>. A comparison
  is false as soon as one side is a NaN; the two zeros compare equal.
\<close>

datatype float64 = NaN | NegInf | Finite real | PosInf

fun f64_lt :: "float64 \<Rightarrow> float64 \<Rightarrow> bool" where
  "f64_lt NaN y = False"
| "f64_lt x NaN = False"
| "f64_lt x NegInf = False"
| "f64_lt NegInf y = True"
| "f64_lt PosInf y = False"
| "f64_lt (Finite a) PosInf = True"
| "f64_lt (Finite a) (Finite b) = (a < b)"

fun f64_le :: "float64 \<Rightarrow> float64 \<Rightarrow> bool" where
  "f64_le NaN y = False"
| "f64_le x NaN = False"
| "f64_le NegInf y = True"
| "f64_le x PosInf = True"
| "f64_le x NegInf = False"
| "f64_le PosInf y = False"
| "f64_le (Finite a) (Finite b) = (a \<le> b)"

definition f64_ge :: "float64 \<Rightarrow> float64 \<Rightarrow> bool" where
  "f64_ge x y = f64_le y x"

text \<open>config.go: \<^verbatim>\<open>type Config struct\<close>.\<close>

record Config =
  SaveRate :: float64
  BufferingEnabled :: bool
  FlushOnError :: bool
  FlushOnWarn :: bool
  BufferSize :: int

definition DefaultConfig :: Config where
  "DefaultConfig =
     \<lparr>SaveRate = Finite 5.0, BufferingEnabled = True, FlushOnError = True,
      FlushOnWarn = False, BufferSize = 64 * 1024\<rparr>"

text \<open>
  The downstream \<^verbatim>\<open>io.Writer\<close>: given the payloads of the calls already made to it and
  the payload of this call, the pair \<^verbatim>\<open>(n, err)\<close> it returns (\<open>None\<close> is \<^verbatim>\<open>nil\<close>).
\<close>

type_synonym Writer = "bytes list \<Rightarrow> bytes \<Rightarrow> int \<times> error option"

text \<open>writer.go: \<^verbatim>\<open>type BufferingWriter struct\<close> (the mutex has no state of its own here).\<close>

record BufferingWriter =
  finalWriter :: Writer
  buffer :: bytes
  shouldFlush :: bool
  config :: Config
  requestID :: string
  bufferSize :: int

text \<open>
  The state an operation works on: the writer and the list of payloads the downstream
  has received, oldest first.
\<close>

type_synonym state = "BufferingWriter \<times> bytes list"

definition NewBufferingWriter :: "Writer \<Rightarrow> Config \<Rightarrow> string \<Rightarrow> BufferingWriter" where
  "NewBufferingWriter fw cfg rid =
     \<lparr>finalWriter = fw, buffer = [], shouldFlush = False, config = cfg,
      requestID = rid, bufferSize = 0\<rparr>"

subsection \<open>The severity classifier\<close>

text \<open>
  \<^verbatim>\<open>bytes.Contains(b, subslice)\<close> of the Go standard library: whether \<open>subslice\<close>
  occurs in \<open>b\<close> as a contiguous run (the empty slice occurs everywhere).
\<close>

fun Contains :: "bytes \<Rightarrow> bytes \<Rightarrow> bool" where
  "Contains [] sub = (sub = [])"
| "Contains (c # cs) sub = (prefix sub (c # cs) \<or> Contains cs sub)"

definition parseLogLevel :: "bytes \<Rightarrow> Level" where
  \<open>parseLogLevel data =
     (if Contains data ''"level":"trace"'' then TraceLevel
      else if Contains data ''"level":"debug"'' then DebugLevel
      else if Contains data ''"level":"info"'' then InfoLevel
      else if Contains data ''"level":"warn"'' then WarnLevel
      else if Contains data ''"level":"error"'' then ErrorLevel
      else if Contains data ''"level":"fatal"'' then FatalLevel
      else if Contains data ''"level":"panic"'' then PanicLevel
      else InfoLevel)\<close>

text \<open>
  The classifier as the specification words it: the severities in their priority order,
  the marker of each, and the first severity of that order whose marker occurs in the
  record, \<open>info\<close> when there is none.
\<close>

definition priority_order :: "Level list" where
  "priority_order =
     [TraceLevel, DebugLevel, InfoLevel, WarnLevel, ErrorLevel, FatalLevel, PanicLevel]"

fun level_name :: "Level \<Rightarrow> string" where
  "level_name TraceLevel = ''trace''"
| "level_name DebugLevel = ''debug''"
| "level_name InfoLevel = ''info''"
| "level_name WarnLevel = ''warn''"
| "level_name ErrorLevel = ''error''"
| "level_name FatalLevel = ''fatal''"
| "level_name PanicLevel = ''panic''"

definition marker :: "Level \<Rightarrow> bytes" where
  \<open>marker l = ''"level":"'' @ level_name l @ ''"''\<close>

definition occurs_in :: "bytes \<Rightarrow> bytes \<Rightarrow> bool" where
  "occurs_in sub data = (\<exists>ps ss. data = ps @ sub @ ss)"

definition classify_spec :: "bytes \<Rightarrow> Level" where
  "classify_spec record =
     (case find (\<lambda>l. occurs_in (marker l) record) priority_order of
        Some l \<Rightarrow> l
      | None \<Rightarrow> InfoLevel)"

subsection \<open>The downstream sink\<close>

text \<open>
  One call \<^verbatim>\<open>bw.finalWriter.Write(p)\<close>: the downstream's answer, and the list of
  received payloads extended by \<open>p\<close>.
\<close>

definition fw_Write :: "Writer \<Rightarrow> bytes list \<Rightarrow> bytes \<Rightarrow> (int \<times> error option) \<times> bytes list" where
  "fw_Write fw out p = (fw out p, out @ [p])"

subsection \<open>Write\<close>

text \<open>The local \<^verbatim>\<open>shouldFlushNow\<close> of \<^verbatim>\<open>Write\<close>, as its \<^verbatim>\<open>switch level\<close> sets it.\<close>

definition shouldFlushNow :: "Config \<Rightarrow> Level \<Rightarrow> bool" where
  "shouldFlushNow cfg level =
     (case level of
        ErrorLevel \<Rightarrow> (if FlushOnError cfg then True else False)
      | FatalLevel \<Rightarrow> (if FlushOnError cfg then True else False)
      | PanicLevel \<Rightarrow> (if FlushOnError cfg then True else False)
      | WarnLevel \<Rightarrow> (if FlushOnWarn cfg then True else False)
      | _ \<Rightarrow> False)"

text \<open>
  The block that \<^verbatim>\<open>Write\<close> (twice) and \<^verbatim>\<open>Flush\<close> share word for word:
  \<^verbatim>\<open>if bw.buffer.Len() > 0 { bw.finalWriter.Write(bw.buffer.Bytes()); bw.buffer.Reset() }\<close>.
  The \<^verbatim>\<open>(n, err)\<close> of that downstream call is dropped by the source.
\<close>

definition writeBufferAndReset :: "state \<Rightarrow> state" where
  "writeBufferAndReset = (\<lambda>(bw, out).
     if length (buffer bw) > 0
     then (bw\<lparr>buffer := []\<rparr>, snd (fw_Write (finalWriter bw) out (buffer bw)))
     else (bw, out))"

text \<open>
  \<^verbatim>\<open>func (bw *BufferingWriter) Write(p []byte) (n int, err error)\<close>.
  \<^verbatim>\<open>bytes.Buffer.Write\<close> appends \<open>p\<close> and returns \<^verbatim>\<open>(len(p), nil)\<close>.
\<close>

definition Write :: "bytes \<Rightarrow> state \<Rightarrow> (int \<times> error option) \<times> state" where
  "Write p = (\<lambda>(bw, out).
     if shouldFlush bw then
       (let (r, out') = fw_Write (finalWriter bw) out p in (r, (bw, out')))
     else
       let level = parseLogLevel p in
       if shouldFlushNow (config bw) level then
         (let (bw', out') = writeBufferAndReset (bw\<lparr>shouldFlush := True\<rparr>, out);
              (r, out'') = fw_Write (finalWriter bw') out' p
          in (r, (bw', out'')))
       else if bufferSize bw + int (length p) > BufferSize (config bw) then
         (let (bw', out') = writeBufferAndReset (bw\<lparr>shouldFlush := True\<rparr>, out);
              (r, out'') = fw_Write (finalWriter bw') out' p
          in (r, (bw', out'')))
       else
         (let (n, err) = (int (length p), None)
          in ((n, err), (bw\<lparr>buffer := buffer bw @ p, bufferSize := bufferSize bw + n\<rparr>, out))))"

subsection \<open>Flush, ShouldSaveOnSuccess, Finalize\<close>

definition Flush :: "state \<Rightarrow> state" where
  "Flush s = (let (bw', out') = writeBufferAndReset s in (bw'\<lparr>shouldFlush := True\<rparr>, out'))"

text \<open>
  \<^verbatim>\<open>ShouldSaveOnSuccess\<close>; \<open>draw\<close> is the \<^verbatim>\<open>float64\<close> value of
  \<^verbatim>\<open>rand.Float64()*100\<close>, the operand that the last line compares with
  \<^verbatim>\<open>SaveRate\<close>; it is read on that line only.
\<close>

definition ShouldSaveOnSuccess :: "BufferingWriter \<Rightarrow> float64 \<Rightarrow> bool" where
  "ShouldSaveOnSuccess bw draw =
     (if \<not> BufferingEnabled (config bw) then True
      else if f64_le (SaveRate (config bw)) (Finite 0) then False
      else if f64_ge (SaveRate (config bw)) (Finite 100) then True
      else f64_lt draw (SaveRate (config bw)))"

text \<open>
  \<^verbatim>\<open>Finalize\<close>; \<open>draw\<close> is handed to \<^verbatim>\<open>ShouldSaveOnSuccess\<close>.
\<close>

definition Finalize :: "bool \<Rightarrow> float64 \<Rightarrow> state \<Rightarrow> state" where
  "Finalize success draw = (\<lambda>(bw, out).
     if shouldFlush bw then (bw, out)
     else
       let shouldSave = (if \<not> success then True else ShouldSaveOnSuccess bw draw);
           out' = (if shouldSave \<and> length (buffer bw) > 0
                   then snd (fw_Write (finalWriter bw) out (buffer bw))
                   else out)
       in (bw\<lparr>buffer := []\<rparr>, out'))"

subsection \<open>Sequences of calls\<close>

text \<open>
  A call of one of the three mutating methods, and the state after a sequence of calls
  (the results of \<^verbatim>\<open>Write\<close> are not kept here).
\<close>

datatype call = CallWrite bytes | CallFlush | CallFinalize bool float64

fun step :: "call \<Rightarrow> state \<Rightarrow> state" where
  "step (CallWrite p) s = snd (Write p s)"
| "step CallFlush s = Flush s"
| "step (CallFinalize success draw) s = Finalize success draw s"

fun run :: "call list \<Rightarrow> state \<Rightarrow> state" where
  "run [] s = s"
| "run (c # cs) s = run cs (step c s)"

fun is_finalize :: "call \<Rightarrow> bool" where
  "is_finalize (CallFinalize _ _) = True"
| "is_finalize _ = False"

text \<open>The records handed to \<^verbatim>\<open>Write\<close> by a sequence of calls, in order.\<close>

fun written_records :: "call list \<Rightarrow> bytes list" where
  "written_records [] = []"
| "written_records (CallWrite p # cs) = p # written_records cs"
| "written_records (_ # cs) = written_records cs"

subsection \<open>Invariants and observations\<close>

text \<open>Once the writer has decided to flush, nothing is left in its buffer.\<close>

definition flushed_inv :: "BufferingWriter \<Rightarrow> bool" where
  "flushed_inv bw = (shouldFlush bw \<longrightarrow> buffer bw = [])"

text \<open>While the writer has not decided to flush, the counter is the length of the buffer.\<close>

definition size_inv :: "BufferingWriter \<Rightarrow> bool" where
  "size_inv bw = (\<not> shouldFlush bw \<longrightarrow> bufferSize bw = int (length (buffer bw)))"

text \<open>
  What the downstream has received, followed by what is still buffered, is made of
  records handed to \<^verbatim>\<open>Write\<close>, each taken at most once and in their order: \<open>sent\<close>
  are the records that went downstream, \<open>pending\<close> those still in the buffer.
\<close>

definition once_each :: "bytes list \<Rightarrow> state \<Rightarrow> bool" where
  "once_each records s =
     (\<exists>sent pending. subseq (sent @ pending) records
        \<and> concat (snd s) = concat sent \<and> buffer (fst s) = concat pending)"

text \<open>
  The answers of the downstream \<open>fw\<close> to the calls that took its received payloads from
  \<open>before\<close> to \<open>after\<close>, in the order of the calls.
\<close>

definition downstream_answers :: "Writer \<Rightarrow> bytes list \<Rightarrow> bytes list \<Rightarrow> (int \<times> error option) list" where
  "downstream_answers fw before after =
     map (\<lambda>k. fw (take k after) (after ! k)) [length before..<length after]"

subsection \<open>Concrete downstreams and configurations\<close>

text \<open>A downstream that takes every payload whole, and one whose first call fails.\<close>

definition accepting :: Writer where
  "accepting received p = (int (length p), None)"

definition failing_first :: Writer where
  "failing_first received p =
     (if received = [] then (0, Some (Error ''broken pipe'')) else (int (length p), None))"

text \<open>
  The configuration of the specification's scenario, one with a buffer of ten bytes and
  no severity trigger, and one with buffering switched off.
\<close>

definition cfg_rate0 :: Config where
  "cfg_rate0 = \<lparr>SaveRate = Finite 0, BufferingEnabled = True, FlushOnError = True,
                 FlushOnWarn = False, BufferSize = 1024\<rparr>"

definition cfg_small :: Config where
  "cfg_small = \<lparr>SaveRate = Finite 0, BufferingEnabled = True, FlushOnError = False,
                 FlushOnWarn = False, BufferSize = 10\<rparr>"

definition cfg_unbuffered :: Config where
  "cfg_unbuffered = \<lparr>SaveRate = Finite 0, BufferingEnabled = False, FlushOnError = True,
                      FlushOnWarn = False, BufferSize = 1024\<rparr>"

section \<open>Properties\<close>

subsection \<open>Comparisons of \<^verbatim>\<open>float64\<close>\<close>

lemma f64_NaN_right: "\<not> f64_lt x NaN" "\<not> f64_le x NaN"
  by (cases x; simp)+

lemma f64_lt_irrefl: "\<not> f64_lt x x"
  by (cases x) simp_all

lemma f64_le_iff: "f64_le x y \<longleftrightarrow> f64_lt x y \<or> (x = y \<and> x \<noteq> NaN)"
  by (cases x; cases y) auto

lemma f64_between_finite:
  "f64_lt (Finite 0) x \<and> f64_lt x (Finite 100) \<longleftrightarrow> (\<exists>r. x = Finite r \<and> 0 < r \<and> r < 100)"
  by (cases x) simp_all

text \<open>With a NaN for \<^verbatim>\<open>SaveRate\<close> every comparison fails and nothing is saved on success.\<close>

lemma ShouldSaveOnSuccess_NaN:
  "BufferingEnabled (config bw) \<Longrightarrow> SaveRate (config bw) = NaN \<Longrightarrow>
   \<not> ShouldSaveOnSuccess bw draw"
  by (simp add: ShouldSaveOnSuccess_def f64_ge_def f64_NaN_right)

subsection \<open>The classifier\<close>

lemma Contains_iff: "Contains data sub \<longleftrightarrow> occurs_in sub data"
proof (induction data)
  case Nil
  show ?case by (auto simp: occurs_in_def)
next
  case (Cons c cs)
  have "occurs_in sub (c # cs) \<longleftrightarrow> prefix sub (c # cs) \<or> occurs_in sub cs"
  proof
    assume "occurs_in sub (c # cs)"
    then obtain ps ss where eq: "c # cs = ps @ sub @ ss"
      by (auto simp: occurs_in_def)
    show "prefix sub (c # cs) \<or> occurs_in sub cs"
    proof (cases ps)
      case Nil
      with eq show ?thesis by (auto simp: prefix_def)
    next
      case (Cons q qs)
      with eq have "cs = qs @ sub @ ss" by simp
      then show ?thesis by (auto simp: occurs_in_def)
    qed
  next
    assume "prefix sub (c # cs) \<or> occurs_in sub cs"
    then show "occurs_in sub (c # cs)"
    proof
      assume "prefix sub (c # cs)"
      then obtain ss where "c # cs = sub @ ss" by (auto simp: prefix_def)
      then have "c # cs = [] @ sub @ ss" by simp
      then show ?thesis unfolding occurs_in_def by blast
    next
      assume "occurs_in sub cs"
      then obtain ps ss where "cs = ps @ sub @ ss" by (auto simp: occurs_in_def)
      then have "c # cs = (c # ps) @ sub @ ss" by simp
      then show ?thesis unfolding occurs_in_def by blast
    qed
  qed
  with Cons.IH show ?case by simp
qed

lemma shouldFlushNow_iff:
  "shouldFlushNow cfg level \<longleftrightarrow>
     (level \<in> {ErrorLevel, FatalLevel, PanicLevel} \<and> FlushOnError cfg) \<or>
     (level = WarnLevel \<and> FlushOnWarn cfg)"
  by (cases level) (simp_all add: shouldFlushNow_def)

subsection \<open>Each operation, path by path\<close>

lemma writeBufferAndReset_eq:
  "writeBufferAndReset (bw, out) =
     (bw\<lparr>buffer := []\<rparr>, out @ (if buffer bw = [] then [] else [buffer bw]))"
  by (simp add: writeBufferAndReset_def fw_Write_def)

lemma Write_passthrough:
  "shouldFlush bw \<Longrightarrow> Write p (bw, out) = (finalWriter bw out p, (bw, out @ [p]))"
  by (simp add: Write_def fw_Write_def)

lemma Write_passthrough_out:
  "shouldFlush (fst s) \<Longrightarrow> snd (snd (Write q s)) = snd s @ [q]"
  by (cases s) (simp add: Write_passthrough)

lemma Write_flush:
  assumes "\<not> shouldFlush bw"
    and "shouldFlushNow (config bw) (parseLogLevel p)
         \<or> bufferSize bw + int (length p) > BufferSize (config bw)"
  shows "Write p (bw, out) =
     (finalWriter bw (out @ (if buffer bw = [] then [] else [buffer bw])) p,
      (bw\<lparr>shouldFlush := True, buffer := []\<rparr>,
       out @ (if buffer bw = [] then [] else [buffer bw]) @ [p]))"
  using assms by (auto simp: Write_def writeBufferAndReset_eq fw_Write_def Let_def)

lemma Write_append:
  assumes "\<not> shouldFlush bw"
    and "\<not> shouldFlushNow (config bw) (parseLogLevel p)"
    and "\<not> bufferSize bw + int (length p) > BufferSize (config bw)"
  shows "Write p (bw, out) =
     ((int (length p), None),
      (bw\<lparr>buffer := buffer bw @ p, bufferSize := bufferSize bw + int (length p)\<rparr>, out))"
  using assms by (simp add: Write_def)

lemma Flush_eq:
  "Flush (bw, out) =
     (bw\<lparr>buffer := [], shouldFlush := True\<rparr>, out @ (if buffer bw = [] then [] else [buffer bw]))"
  by (simp add: Flush_def writeBufferAndReset_eq)

lemma Finalize_flushed: "shouldFlush bw \<Longrightarrow> Finalize success draw (bw, out) = (bw, out)"
  by (simp add: Finalize_def)

lemma Finalize_unflushed:
  "\<not> shouldFlush bw \<Longrightarrow> Finalize success draw (bw, out) =
     (bw\<lparr>buffer := []\<rparr>,
      if (\<not> success \<or> ShouldSaveOnSuccess bw draw) \<and> buffer bw \<noteq> []
      then out @ [buffer bw] else out)"
  by (auto simp: Finalize_def fw_Write_def Let_def)

subsection \<open>Sequences of calls\<close>

lemma step_keeps_shouldFlush: "shouldFlush (fst s) \<Longrightarrow> shouldFlush (fst (step c s))"
  by (cases s; cases c) (simp_all add: Write_passthrough Flush_eq Finalize_flushed)

lemma run_keeps_shouldFlush: "shouldFlush (fst s) \<Longrightarrow> shouldFlush (fst (run cs s))"
  by (induction cs arbitrary: s) (simp_all add: step_keeps_shouldFlush)

lemma step_flushed_buffer:
  "shouldFlush (fst s) \<Longrightarrow>
   buffer (fst (step c s)) = buffer (fst s) \<or> buffer (fst (step c s)) = []"
  by (cases s; cases c) (simp_all add: Write_passthrough Flush_eq Finalize_flushed)

lemma run_flushed_buffer:
  "shouldFlush (fst s) \<Longrightarrow>
   buffer (fst (run cs s)) = buffer (fst s) \<or> buffer (fst (run cs s)) = []"
proof (induction cs arbitrary: s)
  case Nil
  show ?case by simp
next
  case (Cons c cs)
  have f: "shouldFlush (fst (step c s))" using Cons.prems by (rule step_keeps_shouldFlush)
  from Cons.IH [OF f] step_flushed_buffer [OF Cons.prems, of c] show ?case by auto
qed

lemma config_step: "config (fst (step c s)) = config (fst s)"
  by (cases s; cases c)
    (simp_all add: Write_def Flush_def Finalize_def writeBufferAndReset_def fw_Write_def Let_def)

lemma config_run: "config (fst (run cs s)) = config (fst s)"
  by (induction cs arbitrary: s) (simp_all add: config_step)

lemma written_records_Cons:
  "written_records (c # cs) = written_records [c] @ written_records cs"
  by (cases c) simp_all

text \<open>
  The counter of a writer made by \<^verbatim>\<open>NewBufferingWriter\<close> is never negative and never
  above \<^verbatim>\<open>BufferSize\<close> (or 0, if that is negative).
\<close>

lemma bufferSize_step:
  assumes "0 \<le> bufferSize (fst s)"
    and "bufferSize (fst s) \<le> max 0 (BufferSize (config (fst s)))"
  shows "0 \<le> bufferSize (fst (step c s))
       \<and> bufferSize (fst (step c s)) \<le> max 0 (BufferSize (config (fst (step c s))))"
  using assms
  by (cases s; cases c)
    (auto simp: Write_def Flush_def Finalize_def writeBufferAndReset_def fw_Write_def Let_def)

lemma bufferSize_run:
  assumes "0 \<le> bufferSize (fst s)"
    and "bufferSize (fst s) \<le> max 0 (BufferSize (config (fst s)))"
  shows "0 \<le> bufferSize (fst (run cs s))
       \<and> bufferSize (fst (run cs s)) \<le> max 0 (BufferSize (config (fst s)))"
  using assms
proof (induction cs arbitrary: s)
  case Nil
  then show ?case by simp
next
  case (Cons c cs)
  from bufferSize_step [OF Cons.prems, of c] Cons.IH [of "step c s"] show ?case
    by (simp add: config_step)
qed

lemma bufferSize_bounds:
  "0 \<le> bufferSize (fst (run cs (NewBufferingWriter fw cfg rid, out)))
   \<and> bufferSize (fst (run cs (NewBufferingWriter fw cfg rid, out))) \<le> max 0 (BufferSize cfg)"
  using bufferSize_run [of "(NewBufferingWriter fw cfg rid, out)" cs]
  by (simp add: NewBufferingWriter_def)

subsection \<open>The flushed writer has an empty buffer\<close>

lemma flushed_inv_New: "flushed_inv (NewBufferingWriter fw cfg rid)"
  by (simp add: flushed_inv_def NewBufferingWriter_def)

lemma flushed_inv_Write: "flushed_inv bw \<Longrightarrow> flushed_inv (fst (snd (Write p (bw, out))))"
  by (simp add: flushed_inv_def Write_def writeBufferAndReset_eq fw_Write_def Let_def)

lemma flushed_inv_Flush: "flushed_inv (fst (Flush (bw, out)))"
  by (simp add: flushed_inv_def Flush_eq)

lemma flushed_inv_Finalize:
  "flushed_inv bw \<Longrightarrow> flushed_inv (fst (Finalize success draw (bw, out)))"
  by (simp add: flushed_inv_def Finalize_def Let_def)

lemma flushed_inv_step: "flushed_inv (fst s) \<Longrightarrow> flushed_inv (fst (step c s))"
  by (cases s; cases c) (simp_all add: flushed_inv_Write flushed_inv_Flush flushed_inv_Finalize)

lemma flushed_inv_run: "flushed_inv (fst s) \<Longrightarrow> flushed_inv (fst (run cs s))"
  by (induction cs arbitrary: s) (simp_all add: flushed_inv_step)

subsection \<open>The counter before \<^verbatim>\<open>Finalize\<close>\<close>

lemma size_inv_New: "size_inv (NewBufferingWriter fw cfg rid)"
  by (simp add: size_inv_def NewBufferingWriter_def)

lemma size_inv_Write: "size_inv bw \<Longrightarrow> size_inv (fst (snd (Write p (bw, out))))"
  by (simp add: size_inv_def Write_def writeBufferAndReset_eq fw_Write_def Let_def)

lemma size_inv_Flush: "size_inv (fst (Flush (bw, out)))"
  by (simp add: size_inv_def Flush_eq)

lemma size_inv_run:
  "size_inv (fst s) \<Longrightarrow> \<not> list_ex is_finalize cs \<Longrightarrow> size_inv (fst (run cs s))"
proof (induction cs arbitrary: s)
  case Nil
  then show ?case by simp
next
  case (Cons c cs)
  from Cons.prems have "size_inv (fst (step c s))"
    by (cases s; cases c) (simp_all add: size_inv_Write size_inv_Flush)
  with Cons show ?case by simp
qed

subsection \<open>Every record goes downstream at most once\<close>

lemma once_eachI:
  "subseq (sent @ pending) records \<Longrightarrow> concat (snd s) = concat sent \<Longrightarrow>
   buffer (fst s) = concat pending \<Longrightarrow> once_each records s"
  unfolding once_each_def by blast

lemma subseq_left: "subseq (xs @ ys) zs \<Longrightarrow> subseq xs zs"
proof -
  assume "subseq (xs @ ys) zs"
  moreover have "subseq xs (xs @ ys)" by (rule prefix_imp_subseq) simp
  ultimately show ?thesis by (rule subseq_order.trans [rotated])
qed

lemma subseq_snoc: "subseq xs ys \<Longrightarrow> subseq (xs @ [p]) (ys @ [p])"
  by (simp add: list_emb_append_mono)

lemma once_each_Write:
  assumes inv: "flushed_inv bw" and once: "once_each records (bw, out)"
  shows "once_each (records @ [p]) (snd (Write p (bw, out)))"
proof -
  from once obtain sent pending where
    sub: "subseq (sent @ pending) records" and
    out: "concat out = concat sent" and buf: "buffer bw = concat pending"
    by (auto simp: once_each_def)
  show ?thesis
  proof (cases "shouldFlush bw")
    case True
    with inv have empty: "buffer bw = []" by (simp add: flushed_inv_def)
    from sub have "subseq sent records" by (rule subseq_left)
    then have "subseq ((sent @ [p]) @ []) (records @ [p])" by (simp add: subseq_snoc)
    then show ?thesis
      by (rule once_eachI) (simp_all add: Write_passthrough True out empty)
  next
    case False
    show ?thesis
    proof (cases "shouldFlushNow (config bw) (parseLogLevel p)
         \<or> bufferSize bw + int (length p) > BufferSize (config bw)")
      case True
      from sub have "subseq ((sent @ pending @ [p]) @ []) (records @ [p])"
        using subseq_snoc [of "sent @ pending" records p] by simp
      then show ?thesis
        by (rule once_eachI) (simp_all add: Write_flush [OF False True] out buf)
    next
      case no: False
      from sub have sub': "subseq (sent @ (pending @ [p])) (records @ [p])"
        using subseq_snoc [of "sent @ pending" records p] by simp
      from no show ?thesis
        by (intro once_eachI [OF sub']) (simp_all add: Write_append [OF False] out buf)
    qed
  qed
qed

lemma once_each_Flush:
  assumes once: "once_each records (bw, out)"
  shows "once_each records (Flush (bw, out))"
proof -
  from once obtain sent pending where
    sub: "subseq (sent @ pending) records" and
    out: "concat out = concat sent" and buf: "buffer bw = concat pending"
    by (auto simp: once_each_def)
  from sub have "subseq ((sent @ pending) @ []) records" by simp
  then show ?thesis
    by (rule once_eachI) (simp_all add: Flush_eq out buf)
qed

lemma once_each_Finalize:
  assumes once: "once_each records (bw, out)"
  shows "once_each records (Finalize success draw (bw, out))"
proof (cases "shouldFlush bw")
  case True
  with once show ?thesis by (simp add: Finalize_flushed)
next
  case False
  from once obtain sent pending where
    sub: "subseq (sent @ pending) records" and
    out: "concat out = concat sent" and buf: "buffer bw = concat pending"
    by (auto simp: once_each_def)
  show ?thesis
  proof (cases "(\<not> success \<or> ShouldSaveOnSuccess bw draw) \<and> buffer bw \<noteq> []")
    case True
    from sub have sub': "subseq ((sent @ pending) @ []) records" by simp
    from True show ?thesis
      by (intro once_eachI [OF sub']) (simp_all add: Finalize_unflushed [OF False] out buf)
  next
    case drop: False
    from sub have "subseq sent records" by (rule subseq_left)
    then have sub': "subseq (sent @ []) records" by simp
    from drop show ?thesis
      by (intro once_eachI [OF sub']) (simp_all add: Finalize_unflushed [OF False] out)
  qed
qed

lemma once_each_step:
  assumes "flushed_inv (fst s)" and "once_each records s"
  shows "once_each (records @ written_records [c]) (step c s)"
  using assms
  by (cases s; cases c) (simp_all add: once_each_Write once_each_Flush once_each_Finalize)

lemma once_each_run:
  assumes "flushed_inv (fst s)" and "once_each records s"
  shows "once_each (records @ written_records cs) (run cs s)"
  using assms
proof (induction cs arbitrary: s records)
  case Nil
  then show ?case by simp
next
  case (Cons c cs)
  have inv: "flushed_inv (fst (step c s))" using Cons.prems(1) by (rule flushed_inv_step)
  have "once_each (records @ written_records [c]) (step c s)"
    using Cons.prems by (rule once_each_step)
  from Cons.IH [OF inv this]
  have "once_each ((records @ written_records [c]) @ written_records cs) (run (c # cs) s)"
    by simp
  then show ?case by (simp add: written_records_Cons [of c cs])
qed

lemma once_each_New: "once_each [] (NewBufferingWriter fw cfg rid, [])"
  by (rule once_eachI [of "[]" "[]"]) (simp_all add: NewBufferingWriter_def)

subsection \<open>Without \<^verbatim>\<open>Finalize\<close> nothing is dropped\<close>

lemma conserve_step:
  assumes "flushed_inv (fst s)" and "\<not> is_finalize c"
  shows "concat (snd (step c s)) @ buffer (fst (step c s))
       = concat (snd s) @ buffer (fst s) @ concat (written_records [c])"
proof (cases s)
  case (Pair bw out)
  show ?thesis
  proof (cases c)
    case (CallWrite p)
    with assms Pair show ?thesis
      by (simp add: flushed_inv_def Write_def writeBufferAndReset_eq fw_Write_def Let_def)
  next
    case CallFlush
    with Pair show ?thesis by (simp add: Flush_eq)
  next
    case (CallFinalize success draw)
    with assms show ?thesis by simp
  qed
qed

lemma conserve_run:
  assumes "flushed_inv (fst s)" and "\<not> list_ex is_finalize cs"
  shows "concat (snd (run cs s)) @ buffer (fst (run cs s))
       = concat (snd s) @ buffer (fst s) @ concat (written_records cs)"
  using assms
proof (induction cs arbitrary: s)
  case Nil
  then show ?case by simp
next
  case (Cons c cs)
  from Cons.prems have nf: "\<not> is_finalize c" and rest: "\<not> list_ex is_finalize cs" by simp_all
  have inv: "flushed_inv (fst (step c s))" using Cons.prems(1) by (rule flushed_inv_step)
  from Cons.IH [OF inv rest] conserve_step [OF Cons.prems(1) nf] show ?case
    by (simp add: written_records_Cons [of c cs])
qed

subsection \<open>The answers of the downstream\<close>

lemma last_downstream_answers:
  assumes "length before \<le> length xs"
  shows "last (downstream_answers fw before (xs @ [p])) = fw xs p"
proof -
  from assms have "[length before..<length (xs @ [p])] = [length before..<length xs] @ [length xs]"
    by simp
  then show ?thesis by (simp add: downstream_answers_def)
qed

subsection \<open>Concrete runs\<close>

lemma parse_info_A: \<open>parseLogLevel ''{"level":"info","msg":"A"}'' = InfoLevel\<close>
  by (simp add: parseLogLevel_def)

lemma error_record_level: \<open>parseLogLevel ''{"level":"error"}'' = ErrorLevel\<close>
  by (simp add: parseLogLevel_def)

lemma two_buffered:
  "run [CallWrite ''info A'', CallWrite ''debug B''] (NewBufferingWriter accepting cfg_rate0 ''r'', [])
   = (NewBufferingWriter accepting cfg_rate0 ''r''\<lparr>buffer := ''info Adebug B'', bufferSize := 13\<rparr>, [])"
  by (simp add: Write_def parseLogLevel_def shouldFlushNow_def NewBufferingWriter_def cfg_rate0_def)

lemma one_buffered:
  "run [CallWrite ''hello''] (NewBufferingWriter accepting cfg_small ''r'', [])
   = (NewBufferingWriter accepting cfg_small ''r''\<lparr>buffer := ''hello'', bufferSize := 5\<rparr>, [])"
  by (simp add: Write_def parseLogLevel_def shouldFlushNow_def NewBufferingWriter_def cfg_small_def)

lemma one_buffered_failing:
  "run [CallWrite ''info A''] (NewBufferingWriter failing_first cfg_rate0 ''r'', [])
   = (NewBufferingWriter failing_first cfg_rate0 ''r''\<lparr>buffer := ''info A'', bufferSize := 6\<rparr>, [])"
  by (simp add: Write_def parseLogLevel_def shouldFlushNow_def NewBufferingWriter_def cfg_rate0_def)

lemma two_buffered_unbuffered:
  "run [CallWrite ''info A'', CallWrite ''debug B''] (NewBufferingWriter accepting cfg_unbuffered ''r'', [])
   = (NewBufferingWriter accepting cfg_unbuffered ''r''\<lparr>buffer := ''info Adebug B'', bufferSize := 13\<rparr>, [])"
  by (simp add: Write_def parseLogLevel_def shouldFlushNow_def NewBufferingWriter_def
      cfg_unbuffered_def)

section \<open>The properties of the specification\<close>

subsection \<open>C1: buffering switched off\<close>

text \<open>
  \<^verbatim>\<open>Write\<close> never reads \<^verbatim>\<open>BufferingEnabled\<close>: on a fresh writer whose configuration
  has it false, an informational record that fits the buffer is appended to the buffer
  and the downstream receives nothing. (The middleware of the package builds a
  \<^verbatim>\<open>BufferingWriter\<close> only when \<^verbatim>\<open>config.BufferingEnabled\<close> holds.)
\<close>

theorem unbuffered_Write_counterexample:
  "\<not> BufferingEnabled cfg_unbuffered
   \<and> Write ''info A'' (NewBufferingWriter accepting cfg_unbuffered ''r'', [])
      = ((6, None),
         (NewBufferingWriter accepting cfg_unbuffered ''r''\<lparr>buffer := ''info A'', bufferSize := 6\<rparr>, []))"
  by (simp add: Write_def parseLogLevel_def shouldFlushNow_def NewBufferingWriter_def cfg_unbuffered_def)

text \<open>
  C1, as the code has it: when \<^verbatim>\<open>BufferingEnabled\<close> is false, \<^verbatim>\<open>Finalize\<close> on a writer
  that has not flushed writes any non-empty buffer to the downstream, whatever
  \<open>success\<close> and \<^verbatim>\<open>SaveRate\<close> are; \<^verbatim>\<open>Write\<close> returns the same result, makes the same
  downstream calls and leaves the same buffer as with \<^verbatim>\<open>BufferingEnabled\<close> true; and
  after any calls of \<^verbatim>\<open>Write\<close> and \<^verbatim>\<open>Flush\<close> on a fresh writer, \<^verbatim>\<open>Finalize\<close> leaves the
  downstream with exactly the bytes of all the records written, in order.
\<close>

theorem unbuffered_Finalize_persists:
  assumes "\<not> BufferingEnabled (config bw)"
  shows "(\<not> shouldFlush bw \<longrightarrow>
            Finalize success draw (bw, out)
              = (bw\<lparr>buffer := []\<rparr>, if buffer bw = [] then out else out @ [buffer bw]))
       \<and> fst (Write p (bw, out))
           = fst (Write p (bw\<lparr>config := (config bw)\<lparr>BufferingEnabled := True\<rparr>\<rparr>, out))
       \<and> snd (snd (Write p (bw, out)))
           = snd (snd (Write p (bw\<lparr>config := (config bw)\<lparr>BufferingEnabled := True\<rparr>\<rparr>, out)))
       \<and> buffer (fst (snd (Write p (bw, out))))
           = buffer (fst (snd (Write p (bw\<lparr>config := (config bw)\<lparr>BufferingEnabled := True\<rparr>\<rparr>, out))))
       \<and> (\<not> list_ex is_finalize cs \<longrightarrow>
            concat (snd (Finalize success draw
                (run cs (NewBufferingWriter (finalWriter bw) (config bw) rid, []))))
              = concat (written_records cs))"
proof -
  have fin: "\<not> shouldFlush bw \<longrightarrow>
            Finalize success draw (bw, out)
              = (bw\<lparr>buffer := []\<rparr>, if buffer bw = [] then out else out @ [buffer bw])"
    using assms by (simp add: Finalize_unflushed ShouldSaveOnSuccess_def)
  have wr: "Write p (bw\<lparr>config := (config bw)\<lparr>BufferingEnabled := True\<rparr>\<rparr>, out)
      = (fst (Write p (bw, out)),
         (fst (snd (Write p (bw, out)))\<lparr>config := (config bw)\<lparr>BufferingEnabled := True\<rparr>\<rparr>,
          snd (snd (Write p (bw, out)))))"
    by (simp add: Write_def writeBufferAndReset_eq fw_Write_def Let_def shouldFlushNow_def)
  have glob: "concat (snd (Finalize success draw
                (run cs (NewBufferingWriter (finalWriter bw) (config bw) rid, []))))
              = concat (written_records cs)" if nofin: "\<not> list_ex is_finalize cs"
  proof -
    let ?s0 = "(NewBufferingWriter (finalWriter bw) (config bw) rid, [] :: bytes list)"
    obtain bw1 out1 where s1: "run cs ?s0 = (bw1, out1)" by (cases "run cs ?s0")
    have "flushed_inv (fst ?s0)" by (simp add: flushed_inv_New)
    from conserve_run [OF this nofin] s1
    have cons: "concat out1 @ buffer bw1 = concat (written_records cs)"
      by (simp add: NewBufferingWriter_def)
    have "flushed_inv (fst (run cs ?s0))" by (rule flushed_inv_run) (simp add: flushed_inv_New)
    with s1 have inv1: "flushed_inv bw1" by simp
    have "config (fst (run cs ?s0)) = config (fst ?s0)" by (rule config_run)
    with s1 have "config bw1 = config bw" by (simp add: NewBufferingWriter_def)
    with assms have off: "\<not> BufferingEnabled (config bw1)" by simp
    show ?thesis
    proof (cases "shouldFlush bw1")
      case True
      with inv1 have "buffer bw1 = []" by (simp add: flushed_inv_def)
      with cons True show ?thesis by (simp add: s1 Finalize_flushed)
    next
      case False
      with cons [symmetric] off show ?thesis
        by (auto simp: s1 Finalize_unflushed ShouldSaveOnSuccess_def)
    qed
  qed
  from fin wr glob show ?thesis by simp
qed

theorem unbuffered_Finalize_persists_witness:
  "\<not> BufferingEnabled cfg_unbuffered \<and> SaveRate cfg_unbuffered = Finite 0
   \<and> snd (Finalize True (Finite 50)
        (run [CallWrite ''info A'', CallWrite ''debug B'']
           (NewBufferingWriter accepting cfg_unbuffered ''r'', []))) = [''info Adebug B'']
   \<and> concat (snd (Finalize True (Finite 50)
        (run [CallWrite ''info A'', CallFlush, CallWrite ''debug B'']
           (NewBufferingWriter accepting cfg_unbuffered ''r'', [])))) = ''info Adebug B''"
proof -
  let ?bw = "NewBufferingWriter accepting cfg_unbuffered ''r''
               \<lparr>buffer := ''info Adebug B'', bufferSize := 13\<rparr>"
  let ?cs = "[CallWrite ''info A'', CallFlush, CallWrite ''debug B'']"
  have h: "\<not> BufferingEnabled (config ?bw)"
    by (simp add: NewBufferingWriter_def cfg_unbuffered_def)
  have flag: "\<not> shouldFlush ?bw" by (simp add: NewBufferingWriter_def)
  have nofin: "\<not> list_ex is_finalize ?cs" by simp
  have fw: "finalWriter ?bw = accepting" and cfg: "config ?bw = cfg_unbuffered"
    by (simp_all add: NewBufferingWriter_def)
  note inst = unbuffered_Finalize_persists [OF h, of True "Finite 50" "[]" "''x''" ?cs "''r''"]
  from inst flag
  have one: "Finalize True (Finite 50) (?bw, []) = (?bw\<lparr>buffer := []\<rparr>, [''info Adebug B''])"
    by simp
  from inst nofin
  have "concat (snd (Finalize True (Finite 50)
          (run ?cs (NewBufferingWriter (finalWriter ?bw) (config ?bw) ''r'', []))))
        = concat (written_records ?cs)"
    by blast
  then have two: "concat (snd (Finalize True (Finite 50)
          (run ?cs (NewBufferingWriter accepting cfg_unbuffered ''r'', [])))) = ''info Adebug B''"
    unfolding fw cfg by simp
  from one two show ?thesis
    unfolding two_buffered_unbuffered by (simp add: cfg_unbuffered_def)
qed

subsection \<open>C2: the byte counter\<close>

text \<open>
  \<^verbatim>\<open>Finalize\<close> resets the buffer and leaves \<^verbatim>\<open>bufferSize\<close> as it is: after one
  buffered record and a successful \<^verbatim>\<open>Finalize\<close> that does not save, the flag is still
  false, the buffer is empty and the counter is 6.
\<close>

theorem size_counter_counterexample:
  "\<not> shouldFlush (fst (run [CallWrite ''info A'', CallFinalize True (Finite 50)]
       (NewBufferingWriter accepting cfg_rate0 ''r'', [])))
   \<and> bufferSize (fst (run [CallWrite ''info A'', CallFinalize True (Finite 50)]
       (NewBufferingWriter accepting cfg_rate0 ''r'', []))) = 6
   \<and> length (buffer (fst (run [CallWrite ''info A'', CallFinalize True (Finite 50)]
       (NewBufferingWriter accepting cfg_rate0 ''r'', [])))) = 0
   \<and> bufferSize (fst (run [CallWrite ''info A'', CallFinalize True (Finite 50)]
       (NewBufferingWriter accepting cfg_rate0 ''r'', [])))
     \<noteq> int (length (buffer (fst (run [CallWrite ''info A'', CallFinalize True (Finite 50)]
       (NewBufferingWriter accepting cfg_rate0 ''r'', [])))))"
  by (simp add: Write_def Finalize_def ShouldSaveOnSuccess_def fw_Write_def
        parseLogLevel_def shouldFlushNow_def NewBufferingWriter_def cfg_rate0_def)

text \<open>
  C2, as the code has it: on a fresh writer, and after any calls of \<^verbatim>\<open>Write\<close> and
  \<^verbatim>\<open>Flush\<close> on it (no \<^verbatim>\<open>Finalize\<close>), the counter \<^verbatim>\<open>bufferSize\<close> is the byte length of the
  buffer whenever the flag is false; \<^verbatim>\<open>Write\<close> and \<^verbatim>\<open>Flush\<close> keep that from any state. A
  \<^verbatim>\<open>Finalize\<close> on a writer whose flag is false leaves the flag false, empties the buffer
  and does not change the counter.
\<close>

theorem size_counter_before_finalize:
  "size_inv (NewBufferingWriter fw cfg rid)
   \<and> (size_inv bw \<longrightarrow> size_inv (fst (snd (Write p (bw, out)))) \<and> size_inv (fst (Flush (bw, out))))
   \<and> (\<not> list_ex is_finalize cs \<longrightarrow> size_inv (fst (run cs (NewBufferingWriter fw cfg rid, out))))
   \<and> (\<not> shouldFlush bw \<longrightarrow>
        \<not> shouldFlush (fst (Finalize success draw (bw, out)))
        \<and> buffer (fst (Finalize success draw (bw, out))) = []
        \<and> bufferSize (fst (Finalize success draw (bw, out))) = bufferSize bw)"
  by (simp add: size_inv_New size_inv_Write size_inv_Flush size_inv_run Finalize_unflushed)

theorem size_counter_before_finalize_witness:
  "\<not> shouldFlush (fst (run [CallWrite ''info A'', CallWrite ''debug B'']
       (NewBufferingWriter accepting cfg_rate0 ''r'', [])))
   \<and> bufferSize (fst (run [CallWrite ''info A'', CallWrite ''debug B'']
       (NewBufferingWriter accepting cfg_rate0 ''r'', []))) = 13
   \<and> length (buffer (fst (run [CallWrite ''info A'', CallWrite ''debug B'']
       (NewBufferingWriter accepting cfg_rate0 ''r'', [])))) = 13
   \<and> bufferSize (fst (Finalize True (Finite 50) (run [CallWrite ''info A'', CallWrite ''debug B'']
       (NewBufferingWriter accepting cfg_rate0 ''r'', [])))) = 13
   \<and> buffer (fst (Finalize True (Finite 50) (run [CallWrite ''info A'', CallWrite ''debug B'']
       (NewBufferingWriter accepting cfg_rate0 ''r'', [])))) = []"
proof -
  let ?cs = "[CallWrite ''info A'', CallWrite ''debug B'']"
  let ?s = "run ?cs (NewBufferingWriter accepting cfg_rate0 ''r'', [])"
  have nofin: "\<not> list_ex is_finalize ?cs" by simp
  have flag: "\<not> shouldFlush (fst ?s)" unfolding two_buffered by (simp add: NewBufferingWriter_def)
  have len: "length (buffer (fst ?s)) = 13" unfolding two_buffered by simp
  have s: "(fst ?s, []) = ?s" unfolding two_buffered by simp
  note inst = size_counter_before_finalize
         [of accepting cfg_rate0 "''r''" "fst ?s" "''x''" "[]" ?cs True "Finite 50"]
  from inst nofin have "size_inv (fst ?s)" by blast
  with flag have size: "bufferSize (fst ?s) = 13"
    by (simp add: size_inv_def len del: run.simps)
  from inst flag have "buffer (fst (Finalize True (Finite 50) (fst ?s, []))) = []
      \<and> bufferSize (fst (Finalize True (Finite 50) (fst ?s, []))) = bufferSize (fst ?s)"
    by blast
  with size have "buffer (fst (Finalize True (Finite 50) ?s)) = []
      \<and> bufferSize (fst (Finalize True (Finite 50) ?s)) = 13"
    unfolding s by (simp del: run.simps)
  with flag len size show ?thesis by (simp del: run.simps)
qed

subsection \<open>C3: downstream failures\<close>

text \<open>
  A severity flush whose first downstream call, the write of the buffered bytes, fails
  and whose second, the write of the record, succeeds: \<^verbatim>\<open>Write\<close> returns a nil error.
\<close>

theorem Write_error_counterexample:
  \<open>Write ''{"level":"error"}''
      (run [CallWrite ''info A''] (NewBufferingWriter failing_first cfg_rate0 ''r'', []))
    = ((17, None),
       (NewBufferingWriter failing_first cfg_rate0 ''r''
          \<lparr>buffer := [], shouldFlush := True, bufferSize := 6\<rparr>,
        [''info A'', ''{"level":"error"}'']))
   \<and> downstream_answers failing_first [] [''info A'', ''{"level":"error"}'']
       = [(0, Some (Error ''broken pipe'')), (17, None)]\<close>
proof -
  have \<open>downstream_answers failing_first [] [''info A'', ''{"level":"error"}'']
       = [(0, Some (Error ''broken pipe'')), (17, None)]\<close>
    by (simp add: downstream_answers_def failing_first_def upt_rec)
  moreover have \<open>Write ''{"level":"error"}''
      (run [CallWrite ''info A''] (NewBufferingWriter failing_first cfg_rate0 ''r'', []))
    = ((17, None),
       (NewBufferingWriter failing_first cfg_rate0 ''r''
          \<lparr>buffer := [], shouldFlush := True, bufferSize := 6\<rparr>,
        [''info A'', ''{"level":"error"}'']))\<close>
    unfolding one_buffered_failing
    by (simp add: Write_def error_record_level shouldFlushNow_def writeBufferAndReset_def
        fw_Write_def failing_first_def NewBufferingWriter_def cfg_rate0_def)
  ultimately show ?thesis by simp
qed

text \<open>
  C3, as the code has it: a call of \<^verbatim>\<open>Write\<close> either makes no downstream call and
  returns \<^verbatim>\<open>(len(p), nil)\<close>, or its last downstream call is the write of the record
  itself and \<^verbatim>\<open>Write\<close> returns the answer of that call; so a failure of the write of
  the record surfaces as the returned error, and the answer to the write of the
  buffered bytes before it is not returned.
\<close>

theorem Write_returns_last_answer:
  assumes "Write p (bw, out) = (r, (bw', out'))"
  shows "(out' = out \<and> r = (int (length p), None))
       \<or> (length out' > length out \<and> take (length out) out' = out \<and> last out' = p
          \<and> r = last (downstream_answers (finalWriter bw) out out'))"
proof (cases "shouldFlush bw")
  case True
  with assms have "out' = out @ [p]" and "r = finalWriter bw out p"
    by (auto simp: Write_passthrough)
  then show ?thesis by (simp add: last_downstream_answers)
next
  case False
  show ?thesis
  proof (cases "shouldFlushNow (config bw) (parseLogLevel p)
         \<or> bufferSize bw + int (length p) > BufferSize (config bw)")
    case True
    let ?mid = "out @ (if buffer bw = [] then [] else [buffer bw])"
    from assms have "out' = ?mid @ [p]" and "r = finalWriter bw ?mid p"
      by (auto simp: Write_flush [OF False True])
    moreover have "length out \<le> length ?mid" by simp
    ultimately show ?thesis
      using last_downstream_answers [of out ?mid "finalWriter bw" p] by simp
  next
    case no: False
    with assms show ?thesis by (simp add: Write_append [OF False])
  qed
qed

theorem Write_returns_last_answer_witness:
  "fst (Write ''info A'' (Flush (NewBufferingWriter failing_first cfg_rate0 ''r'', [])))
     = (0, Some (Error ''broken pipe''))"
proof -
  let ?bw = "NewBufferingWriter failing_first cfg_rate0 ''r''\<lparr>shouldFlush := True\<rparr>"
  have fl: "Flush (NewBufferingWriter failing_first cfg_rate0 ''r'', []) = (?bw, [])"
    by (simp add: Flush_def writeBufferAndReset_def NewBufferingWriter_def)
  have w: "Write ''info A'' (?bw, []) = (fst (Write ''info A'' (?bw, [])), (?bw, [''info A'']))"
    by (simp add: Write_def fw_Write_def)
  have "downstream_answers failing_first [] [''info A''] = [(0, Some (Error ''broken pipe''))]"
    by (simp add: downstream_answers_def failing_first_def)
  with Write_returns_last_answer [OF w] show ?thesis
    unfolding fl by (simp add: NewBufferingWriter_def)
qed

subsection \<open>C4: failure always persists\<close>

text \<open>
  C4: for every configuration, \<^verbatim>\<open>SaveRate = 0\<close> included, \<^verbatim>\<open>Finalize(false)\<close> on a writer
  whose flag is false and whose buffer is not empty writes the contents of the buffer to
  the downstream (and empties the buffer).
\<close>

theorem Finalize_failure_persists:
  assumes "\<not> shouldFlush bw" and "buffer bw \<noteq> []"
  shows "Finalize False draw (bw, out) = (bw\<lparr>buffer := []\<rparr>, out @ [buffer bw])"
  using assms by (simp add: Finalize_unflushed)

theorem Finalize_failure_persists_witness:
  "SaveRate cfg_rate0 = Finite 0 \<and>
   snd (Finalize False (Finite 50)
     (run [CallWrite ''info A'', CallWrite ''debug B'']
        (NewBufferingWriter accepting cfg_rate0 ''r'', []))) = [''info Adebug B'']"
proof -
  let ?bw = "NewBufferingWriter accepting cfg_rate0 ''r''
               \<lparr>buffer := ''info Adebug B'', bufferSize := 13\<rparr>"
  have h1: "\<not> shouldFlush ?bw" by (simp add: NewBufferingWriter_def)
  have h2: "buffer ?bw \<noteq> []" by simp
  from Finalize_failure_persists [OF h1 h2, of "Finite 50" "[]"] show ?thesis
    unfolding two_buffered by (simp add: cfg_rate0_def)
qed

subsection \<open>C5: overflow forces visibility\<close>

text \<open>
  C5: a \<^verbatim>\<open>Write\<close> on a writer whose flag is false, of a record that triggers no
  severity flush and with \<^verbatim>\<open>bufferSize + len(p) > BufferSize\<close>, sends the buffered bytes
  (when there are any) and then the record to the downstream, in that order, empties
  the buffer and sets the flag; the flag stays set through every later call, and every
  later \<^verbatim>\<open>Write\<close> hands its record to the downstream.
\<close>

theorem Write_overflow_flushes:
  assumes "\<not> shouldFlush bw"
    and "\<not> shouldFlushNow (config bw) (parseLogLevel p)"
    and "bufferSize bw + int (length p) > BufferSize (config bw)"
  shows "snd (snd (Write p (bw, out))) = out @ (if buffer bw = [] then [] else [buffer bw]) @ [p]
       \<and> concat (snd (snd (Write p (bw, out)))) = concat out @ buffer bw @ p
       \<and> buffer (fst (snd (Write p (bw, out)))) = []
       \<and> shouldFlush (fst (snd (Write p (bw, out))))
       \<and> (\<forall>cs. shouldFlush (fst (run cs (snd (Write p (bw, out))))))
       \<and> (\<forall>cs q. snd (snd (Write q (run cs (snd (Write p (bw, out))))))
                  = snd (run cs (snd (Write p (bw, out)))) @ [q])"
proof -
  from assms(1,3) have eq: "Write p (bw, out) =
     (finalWriter bw (out @ (if buffer bw = [] then [] else [buffer bw])) p,
      (bw\<lparr>shouldFlush := True, buffer := []\<rparr>,
       out @ (if buffer bw = [] then [] else [buffer bw]) @ [p]))"
    by (simp add: Write_flush)
  have flag: "shouldFlush (fst (snd (Write p (bw, out))))"
    by (simp add: eq)
  then have later: "shouldFlush (fst (run cs (snd (Write p (bw, out)))))" for cs
    by (rule run_keeps_shouldFlush)
  have "snd (snd (Write q (run cs (snd (Write p (bw, out))))))
                  = snd (run cs (snd (Write p (bw, out)))) @ [q]" for cs q
    using later [of cs] by (rule Write_passthrough_out)
  with flag later show ?thesis by (simp add: eq)
qed

theorem Write_overflow_flushes_witness:
  "BufferSize cfg_small = 10 \<and>
   snd (snd (Write ''world!'' (run [CallWrite ''hello'']
          (NewBufferingWriter accepting cfg_small ''r'', [])))) = [''hello'', ''world!''] \<and>
   shouldFlush (fst (snd (Write ''world!'' (run [CallWrite ''hello'']
          (NewBufferingWriter accepting cfg_small ''r'', []))))) \<and>
   buffer (fst (snd (Write ''world!'' (run [CallWrite ''hello'']
          (NewBufferingWriter accepting cfg_small ''r'', []))))) = []"
proof -
  let ?bw = "NewBufferingWriter accepting cfg_small ''r''\<lparr>buffer := ''hello'', bufferSize := 5\<rparr>"
  have h1: "\<not> shouldFlush ?bw" by (simp add: NewBufferingWriter_def)
  have h2: "\<not> shouldFlushNow (config ?bw) (parseLogLevel ''world!'')"
    by (simp add: parseLogLevel_def shouldFlushNow_def)
  have h3: "bufferSize ?bw + int (length ''world!'') > BufferSize (config ?bw)"
    by (simp add: NewBufferingWriter_def cfg_small_def)
  from Write_overflow_flushes [OF h1 h2 h3, of "[]"] show ?thesis
    unfolding one_buffered by (simp add: cfg_small_def)
qed

subsection \<open>C6: the flag is permanent\<close>

text \<open>
  C6: once \<^verbatim>\<open>shouldFlush\<close> is set, it is set after every sequence of later calls; at
  every such later state the buffer has not grown (it is what it was, or empty), a
  \<^verbatim>\<open>Write\<close> forwards its record to the downstream, returns the downstream's answer and
  leaves the writer as it is, and a \<^verbatim>\<open>Finalize\<close> changes nothing and writes nothing.
\<close>

theorem flushed_is_permanent:
  assumes "shouldFlush bw" and "run cs (bw, out) = (bw', out')"
  shows "shouldFlush bw'
       \<and> (buffer bw' = buffer bw \<or> buffer bw' = [])
       \<and> Write p (bw', out') = (finalWriter bw' out' p, (bw', out' @ [p]))
       \<and> Finalize success draw (bw', out') = (bw', out')"
proof -
  from assms(1) have "shouldFlush (fst (run cs (bw, out)))"
    by (simp add: run_keeps_shouldFlush)
  with assms(2) have flag: "shouldFlush bw'" by simp
  from assms(1) have "buffer (fst (run cs (bw, out))) = buffer (fst (bw, out))
      \<or> buffer (fst (run cs (bw, out))) = []"
    by (intro run_flushed_buffer) simp
  with assms(2) have "buffer bw' = buffer bw \<or> buffer bw' = []" by simp
  with flag show ?thesis by (simp add: Write_passthrough Finalize_flushed)
qed

theorem flushed_is_permanent_witness:
  "shouldFlush (fst (Flush (NewBufferingWriter accepting cfg_rate0 ''r'', [])))
   \<and> run [CallWrite ''info A'', CallFinalize False (Finite 50)]
         (Flush (NewBufferingWriter accepting cfg_rate0 ''r'', []))
       = (NewBufferingWriter accepting cfg_rate0 ''r''\<lparr>shouldFlush := True\<rparr>, [''info A''])
   \<and> Write ''debug B''
         (NewBufferingWriter accepting cfg_rate0 ''r''\<lparr>shouldFlush := True\<rparr>, [''info A''])
       = ((7, None),
          (NewBufferingWriter accepting cfg_rate0 ''r''\<lparr>shouldFlush := True\<rparr>,
           [''info A'', ''debug B'']))
   \<and> Finalize False (Finite 50)
         (NewBufferingWriter accepting cfg_rate0 ''r''\<lparr>shouldFlush := True\<rparr>, [''info A''])
       = (NewBufferingWriter accepting cfg_rate0 ''r''\<lparr>shouldFlush := True\<rparr>, [''info A''])"
proof -
  let ?bw = "NewBufferingWriter accepting cfg_rate0 ''r''\<lparr>shouldFlush := True\<rparr>"
  have fl: "Flush (NewBufferingWriter accepting cfg_rate0 ''r'', []) = (?bw, [])"
    by (simp add: Flush_def writeBufferAndReset_def NewBufferingWriter_def)
  have h1: "shouldFlush ?bw" by simp
  have h2: "run [CallWrite ''info A'', CallFinalize False (Finite 50)] (?bw, []) = (?bw, [''info A''])"
    by (simp add: Write_def Finalize_def fw_Write_def)
  from flushed_is_permanent [OF h1 h2, of "''debug B''" False "Finite 50"] h2 show ?thesis
    unfolding fl by (simp add: NewBufferingWriter_def accepting_def)
qed

subsection \<open>C7: sampling on success\<close>

text \<open>
  C7: \<^verbatim>\<open>ShouldSaveOnSuccess\<close> is true whenever \<^verbatim>\<open>BufferingEnabled\<close> is false; otherwise
  it is false when \<^verbatim>\<open>SaveRate <= 0\<close>, true when \<^verbatim>\<open>SaveRate >= 100\<close>, and for a rate
  strictly between 0 and 100 it is whether the drawn value, the \<^verbatim>\<open>float64\<close> that
  \<^verbatim>\<open>rand.Float64()*100\<close> evaluates to, is less than \<^verbatim>\<open>SaveRate\<close>. This holds for
  every drawn value, those of \<open>[0, 100)\<close> among them.
\<close>

theorem ShouldSaveOnSuccess_cases:
  "(\<not> BufferingEnabled (config bw) \<longrightarrow> ShouldSaveOnSuccess bw draw) \<and>
   (BufferingEnabled (config bw) \<and> f64_le (SaveRate (config bw)) (Finite 0) \<longrightarrow>
      \<not> ShouldSaveOnSuccess bw draw) \<and>
   (BufferingEnabled (config bw) \<and> f64_ge (SaveRate (config bw)) (Finite 100) \<longrightarrow>
      ShouldSaveOnSuccess bw draw) \<and>
   (BufferingEnabled (config bw) \<and> f64_lt (Finite 0) (SaveRate (config bw))
      \<and> f64_lt (SaveRate (config bw)) (Finite 100) \<longrightarrow>
      ShouldSaveOnSuccess bw draw = f64_lt draw (SaveRate (config bw)))"
  by (cases "SaveRate (config bw)") (simp_all add: ShouldSaveOnSuccess_def f64_ge_def)

theorem ShouldSaveOnSuccess_cases_witness:
  "ShouldSaveOnSuccess (NewBufferingWriter accepting cfg_unbuffered ''r'') (Finite 50) \<and>
   \<not> ShouldSaveOnSuccess (NewBufferingWriter accepting cfg_rate0 ''r'') (Finite 50) \<and>
   ShouldSaveOnSuccess
     (NewBufferingWriter accepting (DefaultConfig\<lparr>SaveRate := Finite 100\<rparr>) ''r'') (Finite 50) \<and>
   ShouldSaveOnSuccess (NewBufferingWriter accepting DefaultConfig ''r'') (Finite (25/8)) \<and>
   \<not> ShouldSaveOnSuccess (NewBufferingWriter accepting DefaultConfig ''r'') (Finite 5) \<and>
   \<not> ShouldSaveOnSuccess (NewBufferingWriter accepting DefaultConfig ''r'') (Finite 50)"
  using
    ShouldSaveOnSuccess_cases [of "NewBufferingWriter accepting cfg_unbuffered ''r''" "Finite 50"]
    ShouldSaveOnSuccess_cases [of "NewBufferingWriter accepting cfg_rate0 ''r''" "Finite 50"]
    ShouldSaveOnSuccess_cases
      [of "NewBufferingWriter accepting (DefaultConfig\<lparr>SaveRate := Finite 100\<rparr>) ''r''"
          "Finite 50"]
    ShouldSaveOnSuccess_cases [of "NewBufferingWriter accepting DefaultConfig ''r''" "Finite (25/8)"]
    ShouldSaveOnSuccess_cases [of "NewBufferingWriter accepting DefaultConfig ''r''" "Finite 5"]
    ShouldSaveOnSuccess_cases [of "NewBufferingWriter accepting DefaultConfig ''r''" "Finite 50"]
  by (simp add: NewBufferingWriter_def cfg_unbuffered_def cfg_rate0_def DefaultConfig_def
      f64_ge_def)

subsection \<open>C8: the severity classifier\<close>

text \<open>
  C8: for every byte sequence, \<^verbatim>\<open>parseLogLevel\<close> returns the first severity, in the
  order trace, debug, info, warn, error, fatal, panic, whose marker
  \<^verbatim>\<open>"level":"<name>"\<close> occurs in the record, and \<open>info\<close> when no marker occurs.
\<close>

theorem parseLogLevel_first_marker: "parseLogLevel data = classify_spec data"
  by (simp add: parseLogLevel_def classify_spec_def priority_order_def marker_def Contains_iff)

subsection \<open>C9: a flushed writer holds nothing\<close>

text \<open>
  C9: a fresh writer satisfies "flag set implies buffer empty"; \<^verbatim>\<open>Write\<close>, \<^verbatim>\<open>Flush\<close> and
  \<^verbatim>\<open>Finalize\<close> each preserve it, so it holds after every sequence of calls; and after
  every sequence of calls what the downstream has received, followed by what is still
  buffered, consists of records handed to \<^verbatim>\<open>Write\<close>, each at most once and in order:
  no buffered byte reaches the downstream twice.
\<close>

theorem flushed_buffer_empty:
  "flushed_inv (NewBufferingWriter fw cfg rid)
   \<and> (flushed_inv bw \<longrightarrow>
        flushed_inv (fst (snd (Write p (bw, out))))
        \<and> flushed_inv (fst (Flush (bw, out)))
        \<and> flushed_inv (fst (Finalize success draw (bw, out))))
   \<and> flushed_inv (fst (run cs (NewBufferingWriter fw cfg rid, [])))
   \<and> once_each (written_records cs) (run cs (NewBufferingWriter fw cfg rid, []))"
proof -
  have "once_each ([] @ written_records cs) (run cs (NewBufferingWriter fw cfg rid, []))"
    by (rule once_each_run) (simp_all add: flushed_inv_New once_each_New)
  then show ?thesis
    by (simp add: flushed_inv_New flushed_inv_Write flushed_inv_Flush flushed_inv_Finalize
        flushed_inv_run)
qed

theorem flushed_buffer_empty_witness:
  "shouldFlush (fst (run [CallWrite ''info A'', CallFlush, CallWrite ''debug B'',
                         CallFinalize False (Finite 50)]
       (NewBufferingWriter accepting cfg_rate0 ''r'', [])))
   \<and> buffer (fst (run [CallWrite ''info A'', CallFlush, CallWrite ''debug B'',
                       CallFinalize False (Finite 50)]
       (NewBufferingWriter accepting cfg_rate0 ''r'', []))) = []
   \<and> snd (run [CallWrite ''info A'', CallFlush, CallWrite ''debug B'',
               CallFinalize False (Finite 50)]
       (NewBufferingWriter accepting cfg_rate0 ''r'', [])) = [''info A'', ''debug B'']
   \<and> buffer (fst (snd (Write ''x'' (run [CallWrite ''info A'', CallFlush, CallWrite ''debug B'',
               CallFinalize False (Finite 50)]
       (NewBufferingWriter accepting cfg_rate0 ''r'', []))))) = []"
proof -
  let ?cs = "[CallWrite ''info A'', CallFlush, CallWrite ''debug B'', CallFinalize False (Finite 50)]"
  let ?s = "run ?cs (NewBufferingWriter accepting cfg_rate0 ''r'', [])"
  have run: "?s = (NewBufferingWriter accepting cfg_rate0 ''r''
                     \<lparr>shouldFlush := True, bufferSize := 6\<rparr>,
                   [''info A'', ''debug B''])"
    by (simp add: Write_def Flush_def Finalize_def writeBufferAndReset_def fw_Write_def
        parseLogLevel_def shouldFlushNow_def NewBufferingWriter_def cfg_rate0_def)
  have flag: "shouldFlush (fst ?s)" unfolding run by simp
  have flag': "shouldFlush (fst (snd (Write ''x'' (fst ?s, snd ?s))))"
    unfolding run by (simp add: Write_def fw_Write_def)
  note inst = flushed_buffer_empty
      [of accepting cfg_rate0 "''r''" "fst ?s" "''x''" "snd ?s" False "Finite 50" ?cs]
  from inst have inv: "flushed_inv (fst ?s)" by blast
  with inst have "flushed_inv (fst (snd (Write ''x'' (fst ?s, snd ?s))))" by blast
  with flag' have after: "buffer (fst (snd (Write ''x'' ?s))) = []"
    by (simp add: flushed_inv_def del: run.simps)
  from inv flag have "buffer (fst ?s) = []" by (simp add: flushed_inv_def del: run.simps)
  with flag after show ?thesis unfolding run by simp
qed

subsection \<open>C10: the result of a buffered write\<close>

text \<open>
  C10: a \<^verbatim>\<open>Write\<close> on a writer whose flag is false, of a record that triggers no
  severity flush and does not overflow the buffer, returns the length of the record and
  a nil error.
\<close>

theorem Write_buffered_result:
  assumes "\<not> shouldFlush bw"
    and "\<not> shouldFlushNow (config bw) (parseLogLevel p)"
    and "\<not> bufferSize bw + int (length p) > BufferSize (config bw)"
  shows "fst (Write p (bw, out)) = (int (length p), None)"
  using assms by (simp add: Write_append)

theorem Write_buffered_result_witness:
  \<open>\<not> shouldFlush (NewBufferingWriter accepting cfg_rate0 ''r'') \<and>
   \<not> shouldFlushNow (config (NewBufferingWriter accepting cfg_rate0 ''r''))
        (parseLogLevel ''{"level":"info","msg":"A"}'') \<and>
   \<not> bufferSize (NewBufferingWriter accepting cfg_rate0 ''r'')
        + int (length ''{"level":"info","msg":"A"}'')
      > BufferSize (config (NewBufferingWriter accepting cfg_rate0 ''r'')) \<and>
   fst (Write ''{"level":"info","msg":"A"}'' (NewBufferingWriter accepting cfg_rate0 ''r'', []))
     = (26, None)\<close>
proof -
  let ?bw = "NewBufferingWriter accepting cfg_rate0 ''r''"
  let ?p = \<open>''{"level":"info","msg":"A"}''\<close>
  have h1: "\<not> shouldFlush ?bw" by (simp add: NewBufferingWriter_def)
  have h2: "\<not> shouldFlushNow (config ?bw) (parseLogLevel ?p)"
    by (simp add: parse_info_A shouldFlushNow_def)
  have h3: "\<not> bufferSize ?bw + int (length ?p) > BufferSize (config ?bw)"
    by (simp add: NewBufferingWriter_def cfg_rate0_def)
  from Write_buffered_result [OF h1 h2 h3, of "[]"] h1 h2 h3 show ?thesis by simp
qed

end
